theory Spec2Isabelle
  imports Main "HOL-Library.AList" "HOL-Library.Multiset"
begin

section \<open>Partial-topology Byzantine agreement (model/old/node.py)\<close>

text \<open>
  A Python \<open>dict\<close> is an association list in insertion order: \<open>map_of\<close> looks a key
  up, \<open>AList.update\<close> assigns (in place for a key already present, at the end for a
  new one), and \<open>map fst\<close> lists the keys in iteration order.  Python's unbounded
  integers are \<open>int\<close>.  Output written with \<open>print\<close> changes neither the state nor
  any returned value and is left out.
\<close>

subsection \<open>Decision values\<close>

definition ATTACK :: string where
  "ATTACK = ''ATTACK''"

definition RETREAT :: string where
  "RETREAT = ''RETREAT''"

definition DEFAULT_VALUE :: string where
  "DEFAULT_VALUE = RETREAT"

subsection \<open>Nodes and messages\<close>

text \<open>
  \<open>initial_value\<close> is the attribute that only the subclass \<open>Commander\<close> has:
  \<open>None\<close> for a plain \<open>Node\<close>.
\<close>

record node =
  node_id :: int
  is_traitor :: bool
  neighbors :: "int list"
  received_messages :: "(int \<times> (string \<times> int list) list) list"
  decision :: "string option"
  sent_messages :: "(int \<times> (int \<times> string) list) list"
  initial_value :: "string option"

record message =
  msg_value :: string
  msg_sender :: int
  msg_round :: int
  msg_path :: "int list"

definition Node :: "int \<Rightarrow> int list \<Rightarrow> bool \<Rightarrow> node" where
  "Node nid nbs traitor =
     \<lparr>node_id = nid, is_traitor = traitor, neighbors = nbs, received_messages = [],
      decision = None, sent_messages = [], initial_value = None\<rparr>"

definition Commander :: "int \<Rightarrow> int list \<Rightarrow> string \<Rightarrow> node" where
  "Commander nid nbs v =
     (Node nid nbs False)\<lparr>initial_value := Some v, decision := Some v\<rparr>"

text \<open>\<open>Node.send_message\<close>, the part that runs on the sender: the new sender and the message.\<close>

definition make_message :: "node \<Rightarrow> string \<Rightarrow> int \<Rightarrow> int \<Rightarrow> int list option \<Rightarrow> node \<times> message" where
  "make_message n v target_node round_num path =
     (let path0 = (case path of None \<Rightarrow> [] | Some p \<Rightarrow> p);
          v' = (if is_traitor n \<and> round_num > 0
                then (if target_node mod 2 = 0 then ATTACK else RETREAT) else v);
          new_path = path0 @ [node_id n];
          sm = (case map_of (sent_messages n) round_num of
                  None \<Rightarrow> AList.update round_num [] (sent_messages n)
                | Some _ \<Rightarrow> sent_messages n);
          per_round = (case map_of sm round_num of None \<Rightarrow> [] | Some d \<Rightarrow> d);
          sm' = AList.update round_num (AList.update target_node v' per_round) sm
      in (n\<lparr>sent_messages := sm'\<rparr>,
          \<lparr>msg_value = v', msg_sender = node_id n, msg_round = round_num, msg_path = new_path\<rparr>))"

definition receive_message :: "node \<Rightarrow> message \<Rightarrow> node" where
  "receive_message n msg =
     (let round_num = msg_round msg;
          rm = (case map_of (received_messages n) round_num of
                  None \<Rightarrow> AList.update round_num [] (received_messages n)
                | Some _ \<Rightarrow> received_messages n);
          logged = (case map_of rm round_num of None \<Rightarrow> [] | Some l \<Rightarrow> l)
      in n\<lparr>received_messages := AList.update round_num (logged @ [(msg_value msg, msg_path msg)]) rm\<rparr>)"

text \<open>
  \<open>Network.deliver_message\<close>.  Every node is registered with \<open>Network\<close> when it is
  created (\<open>add_node\<close>, \<open>set_commander\<close>), under the same id and as the same object
  as in \<open>PartialTopologyBFT.nodes\<close>; one system is modelled, so the registry is the
  system's node dictionary.
\<close>

definition deliver_message :: "(int \<times> node) list \<Rightarrow> int \<Rightarrow> message \<Rightarrow> (int \<times> node) list" where
  "deliver_message ns target_node_id msg =
     (case map_of ns target_node_id of
        None \<Rightarrow> ns
      | Some n \<Rightarrow> AList.update target_node_id (receive_message n msg) ns)"

text \<open>\<open>self.nodes[sender].send_message(...)\<close>: the sender records the message, then it is delivered.\<close>

definition send_message ::
  "(int \<times> node) list \<Rightarrow> int \<Rightarrow> string \<Rightarrow> int \<Rightarrow> int \<Rightarrow> int list option \<Rightarrow> (int \<times> node) list" where
  "send_message ns sender v target_node round_num path =
     (case map_of ns sender of
        None \<Rightarrow> ns
      | Some n \<Rightarrow>
          (case make_message n v target_node round_num path of
             (n', msg) \<Rightarrow> deliver_message (AList.update sender n' ns) target_node msg))"

text \<open>
  \<open>get_majority_from_paths\<close>.  The Python set \<open>unique_messages\<close> holds each
  (value, path) pair once; \<open>remdups\<close> keeps one copy of each pair, and the counts do
  not depend on the order.
\<close>

definition majority :: "string list \<Rightarrow> string" where
  "majority vs = (if count_list vs ATTACK > count_list vs RETREAT then ATTACK else RETREAT)"

definition get_majority_from_paths :: "node \<Rightarrow> int \<Rightarrow> string" where
  "get_majority_from_paths n round_num =
     (case map_of (received_messages n) round_num of
        None \<Rightarrow> DEFAULT_VALUE
      | Some logged \<Rightarrow>
          (let unique_messages = remdups logged;
               vs = map fst unique_messages
           in if vs = [] then DEFAULT_VALUE else majority vs))"

subsection \<open>The system: nodes, commander, graph\<close>

text \<open>
  \<open>graph\<close> maps a node to its neighbour set; the list is that set in the order Python
  iterates it.  \<open>add_node\<close> and \<open>set_commander\<close> store the neighbours in ascending
  order without repetition, which is CPython's order for the small ids of the examples;
  every general theorem below is about an arbitrary graph and so about every order.
\<close>

record system =
  nodes :: "(int \<times> node) list"
  commander_id :: int
  graph :: "(int \<times> int list) list"

definition PartialTopologyBFT :: system where
  "PartialTopologyBFT = \<lparr>nodes = [], commander_id = 0, graph = []\<rparr>"

definition add_node :: "system \<Rightarrow> int \<Rightarrow> int list \<Rightarrow> bool \<Rightarrow> system" where
  "add_node s nid nbs traitor =
     s\<lparr>nodes := AList.update nid (Node nid nbs traitor) (nodes s),
       graph := AList.update nid (sort (remdups nbs)) (graph s)\<rparr>"

definition set_commander :: "system \<Rightarrow> int \<Rightarrow> int list \<Rightarrow> string \<Rightarrow> system" where
  "set_commander s nid nbs v =
     s\<lparr>commander_id := nid,
       nodes := AList.update nid (Commander nid nbs v) (nodes s),
       graph := AList.update nid (sort (remdups nbs)) (graph s)\<rparr>"

definition graph_get :: "(int \<times> int list) list \<Rightarrow> int \<Rightarrow> int list" where
  "graph_get g n = (case map_of g n of None \<Rightarrow> [] | Some nbs \<Rightarrow> nbs)"

subsection \<open>Path enumeration and disjoint-path selection\<close>

text \<open>The \<open>while queue\<close> loop of \<open>find_all_paths\<close>: the queue and the paths found so far.\<close>

definition extend_path :: "(int \<times> int list) list \<Rightarrow> int \<Rightarrow> int list \<Rightarrow> (int \<times> int list) list" where
  "extend_path g current path =
     map (\<lambda>neighbor. (neighbor, path @ [neighbor]))
       (filter (\<lambda>neighbor. neighbor \<notin> set path) (graph_get g current))"

definition path_slack :: "int \<Rightarrow> int \<times> int list \<Rightarrow> nat" where
  "path_slack max_length e = nat (max_length - int (length (snd e)))"

function find_all_paths_loop ::
  "(int \<times> int list) list \<Rightarrow> int \<Rightarrow> int \<Rightarrow> (int \<times> int list) list \<Rightarrow> int list list \<Rightarrow> int list list" where
  "find_all_paths_loop g target max_length [] paths = paths"
| "find_all_paths_loop g target max_length ((current, path) # queue) paths =
     (if current = target then find_all_paths_loop g target max_length queue (paths @ [path])
      else if int (length path) \<ge> max_length then find_all_paths_loop g target max_length queue paths
      else find_all_paths_loop g target max_length (queue @ extend_path g current path) paths)"
  by pat_completeness auto

termination find_all_paths_loop
proof (relation "inv_image (mult less_than)
         (\<lambda>(g, target, max_length, queue, paths). mset (map (path_slack max_length) queue))",
       goal_cases)
  case 1
  show ?case by (intro wf_inv_image wf_mult wf_less_than)
next
  case (2 g target max_length current path queue paths)
  have "(mset (map (path_slack max_length) queue) + {#},
         mset (map (path_slack max_length) queue) + {#path_slack max_length (current, path)#})
        \<in> mult less_than"
    by (intro one_step_implies_mult) auto
  then show ?case by simp
next
  case (3 g target max_length current path queue paths)
  have "(mset (map (path_slack max_length) queue) + {#},
         mset (map (path_slack max_length) queue) + {#path_slack max_length (current, path)#})
        \<in> mult less_than"
    by (intro one_step_implies_mult) auto
  then show ?case by simp
next
  case (4 g target max_length current path queue paths)
  then have short: "int (length path) < max_length" by simp
  have "\<forall>k\<in>set_mset (mset (map (path_slack max_length) (extend_path g current path))).
          \<exists>j\<in>set_mset {#path_slack max_length (current, path)#}. (k, j) \<in> less_than"
    using short by (auto simp: extend_path_def path_slack_def)
  then have "(mset (map (path_slack max_length) queue)
                + mset (map (path_slack max_length) (extend_path g current path)),
              mset (map (path_slack max_length) queue) + {#path_slack max_length (current, path)#})
             \<in> mult less_than"
    by (intro one_step_implies_mult) auto
  then show ?case by simp
qed

definition find_all_paths :: "(int \<times> int list) list \<Rightarrow> int \<Rightarrow> int \<Rightarrow> int \<Rightarrow> int list list" where
  "find_all_paths g source target max_length =
     (if source \<notin> fst ` set g \<or> target \<notin> fst ` set g then []
      else find_all_paths_loop g target max_length [(source, [source])] [])"

text \<open>The edges of a path, each as \<open>tuple(sorted([a, b]))\<close>.\<close>

fun path_edge_list :: "int list \<Rightarrow> (int \<times> int) list" where
  "path_edge_list (a # b # rest) = (min a b, max a b) # path_edge_list (b # rest)"
| "path_edge_list [a] = []"
| "path_edge_list [] = []"

definition path_edges :: "int list \<Rightarrow> (int \<times> int) set" where
  "path_edges path = set (path_edge_list path)"

definition are_paths_edge_disjoint :: "int list \<Rightarrow> int list \<Rightarrow> bool" where
  "are_paths_edge_disjoint path1 path2 = (path_edges path1 \<inter> path_edges path2 = {})"

text \<open>
  The \<open>for path in all_paths\<close> loop of \<open>find_disjoint_paths\<close>; the test against
  \<open>k\<close> comes after the path has been looked at, as in the source.
\<close>

fun select_disjoint ::
  "int \<Rightarrow> int list list \<Rightarrow> int list list \<Rightarrow> (int \<times> int) set \<Rightarrow> int list list" where
  "select_disjoint k [] disjoint_paths used_edges = disjoint_paths"
| "select_disjoint k (path # rest) disjoint_paths used_edges =
     (if path_edges path \<inter> used_edges = {}
      then (if int (length (disjoint_paths @ [path])) \<ge> k then disjoint_paths @ [path]
            else select_disjoint k rest (disjoint_paths @ [path]) (used_edges \<union> path_edges path))
      else (if int (length disjoint_paths) \<ge> k then disjoint_paths
            else select_disjoint k rest disjoint_paths used_edges))"

definition find_disjoint_paths :: "(int \<times> int list) list \<Rightarrow> int \<Rightarrow> int \<Rightarrow> int \<Rightarrow> int list list" where
  "find_disjoint_paths g source target k =
     (if source = target then []
      else select_disjoint k (sort_key length (find_all_paths g source target 10)) [] {})"

text \<open>A path of the graph: each node is in the neighbour set of the one before it.\<close>

fun path_in_graph :: "(int \<times> int list) list \<Rightarrow> int list \<Rightarrow> bool" where
  "path_in_graph g (a # b # rest) = (b \<in> set (graph_get g a) \<and> path_in_graph g (b # rest))"
| "path_in_graph g [a] = True"
| "path_in_graph g [] = True"

subsection \<open>Connectivity\<close>

definition visit_step :: "int set \<Rightarrow> int \<Rightarrow> int set \<times> int list \<Rightarrow> int set \<times> int list" where
  "visit_step excluded neighbor st =
     (case st of (visited, queue) \<Rightarrow>
        if neighbor \<notin> excluded \<and> neighbor \<notin> visited
        then (insert neighbor visited, queue @ [neighbor]) else (visited, queue))"

definition graph_universe :: "(int \<times> int list) list \<Rightarrow> int set" where
  "graph_universe g = \<Union> (set ` snd ` set g)"

text \<open>The \<open>while queue\<close> loop of \<open>is_graph_connected\<close>; the result is \<open>visited\<close>.\<close>

function bfs_visit :: "(int \<times> int list) list \<Rightarrow> int set \<Rightarrow> int list \<Rightarrow> int set \<Rightarrow> int set" where
  "bfs_visit g excluded [] visited = visited"
| "bfs_visit g excluded (current # queue) visited =
     (case fold (visit_step excluded) (graph_get g current) (visited, queue) of
        (visited', queue') \<Rightarrow> bfs_visit g excluded queue' visited')"
  by pat_completeness auto
termination
proof (relation "measure (\<lambda>(g, excluded, queue, visited).
         card (graph_universe g - visited) + length queue)", goal_cases)
  case 1
  show ?case by simp
next
  case (2 g excluded current queue visited visited' queue')
  have fin: "finite (graph_universe g)"
    by (simp add: graph_universe_def)
  have sub: "set (graph_get g current) \<subseteq> graph_universe g"
  proof (cases "map_of g current")
    case None
    then show ?thesis by (simp add: graph_get_def)
  next
    case (Some nbs)
    then have "(current, nbs) \<in> set g" by (rule map_of_SomeD)
    then have "set nbs \<subseteq> graph_universe g" unfolding graph_universe_def by force
    with Some show ?thesis by (simp add: graph_get_def)
  qed
  have step: "set nbs \<subseteq> graph_universe g \<Longrightarrow>
      card (graph_universe g - fst (fold (visit_step excluded) nbs (v, q)))
        + length (snd (fold (visit_step excluded) nbs (v, q)))
      = card (graph_universe g - v) + length q" for nbs v q
  proof (induction nbs arbitrary: v q)
    case Nil
    show ?case by simp
  next
    case (Cons nb nbs)
    show ?case
    proof (cases "nb \<notin> excluded \<and> nb \<notin> v")
      case True
      have "nb \<in> graph_universe g - v" using Cons.prems True by simp
      then have "card (graph_universe g - insert nb v) + 1 = card (graph_universe g - v)"
        using fin
        by (metis Diff_insert Suc_eq_plus1 card_Suc_Diff1 finite_Diff)
      moreover have "fold (visit_step excluded) (nb # nbs) (v, q)
          = fold (visit_step excluded) nbs (insert nb v, q @ [nb])"
        using True by (simp add: visit_step_def)
      ultimately show ?thesis using Cons.IH[of "insert nb v" "q @ [nb]"] Cons.prems by simp
    next
      case False
      then have "fold (visit_step excluded) (nb # nbs) (v, q)
          = fold (visit_step excluded) nbs (v, q)"
        by (auto simp: visit_step_def)
      then show ?thesis using Cons.IH[of v q] Cons.prems by simp
    qed
  qed
  have result: "fold (visit_step excluded) (graph_get g current) (visited, queue) = (visited', queue')"
    using 2 by simp
  from step[OF sub, of visited queue] show ?case
    unfolding result by simp
qed

definition is_graph_connected :: "(int \<times> int list) list \<Rightarrow> int set option \<Rightarrow> bool" where
  "is_graph_connected g excluded_nodes =
     (let excluded = (case excluded_nodes of None \<Rightarrow> {} | Some e \<Rightarrow> e) in
      if g = [] then False
      else (case find (\<lambda>node. node \<notin> excluded) (map fst g) of
              None \<Rightarrow> True
            | Some start_node \<Rightarrow>
                (let visited = bfs_visit g excluded [start_node] {start_node}
                 in \<not> list_ex (\<lambda>node. node \<notin> excluded \<and> node \<notin> visited) (map fst g))))"

text \<open>\<open>itertools.combinations\<close>: the \<open>k\<close>-element subsequences, in lexicographic index order.\<close>

fun combinations :: "'a list \<Rightarrow> nat \<Rightarrow> 'a list list" where
  "combinations xs 0 = [[]]"
| "combinations [] (Suc k) = []"
| "combinations (x # xs) (Suc k) = map ((#) x) (combinations xs k) @ combinations xs (Suc k)"

text \<open>The \<open>for k in range(1, len(nodes_list))\<close> loop of \<open>calculate_node_connectivity\<close>.\<close>

fun connectivity_loop :: "(int \<times> int list) list \<Rightarrow> int list \<Rightarrow> nat list \<Rightarrow> int" where
  "connectivity_loop g nodes_list [] = int (length nodes_list) - 1"
| "connectivity_loop g nodes_list (k # ks) =
     (if list_ex (\<lambda>nodes_to_remove. \<not> is_graph_connected g (Some (set nodes_to_remove)))
           (combinations nodes_list k)
      then int k - 1
      else connectivity_loop g nodes_list ks)"

definition calculate_node_connectivity :: "(int \<times> int list) list \<Rightarrow> int" where
  "calculate_node_connectivity g =
     (if g = [] then 0
      else (let nodes_list = map fst g in
            if length nodes_list \<le> 1 then 0
            else connectivity_loop g nodes_list [1..<length nodes_list]))"

definition required_connectivity :: "int \<Rightarrow> bool \<Rightarrow> int" where
  "required_connectivity m use_signed_messages = (if use_signed_messages then m + 1 else 2 * m + 1)"

definition verify_connectivity :: "(int \<times> int list) list \<Rightarrow> int \<Rightarrow> bool \<Rightarrow> bool" where
  "verify_connectivity g m use_signed_messages =
     (calculate_node_connectivity g \<ge> required_connectivity m use_signed_messages)"

subsection \<open>Multipath sending\<close>

text \<open>\<open>list.index\<close>: the first position of \<open>x\<close> (used only for an element of the list).\<close>

fun index_of :: "int list \<Rightarrow> int \<Rightarrow> nat" where
  "index_of [] x = 0"
| "index_of (y # ys) x = (if y = x then 0 else Suc (index_of ys x))"

text \<open>
  The inner loop of \<open>send_via_multipath\<close> over \<open>path[1:]\<close>: each hop sends the
  original value from \<open>current_node\<close> to \<open>next_node\<close> with the prefix
  \<open>path[:path.index(current_node)+1]\<close>.
\<close>

fun send_along ::
  "(int \<times> node) list \<Rightarrow> string \<Rightarrow> int \<Rightarrow> int list \<Rightarrow> int \<Rightarrow> int list \<Rightarrow> (int \<times> node) list" where
  "send_along ns v round_num path current_node [] = ns"
| "send_along ns v round_num path current_node (next_node # rest) =
     send_along
       (if current_node \<in> fst ` set ns \<and> next_node \<in> fst ` set ns
        then send_message ns current_node v next_node round_num
               (Some (take (index_of path current_node + 1) path))
        else ns)
       v round_num path next_node rest"

definition send_path :: "int \<Rightarrow> string \<Rightarrow> int \<Rightarrow> int list \<Rightarrow> (int \<times> node) list \<Rightarrow> (int \<times> node) list" where
  "send_path source v round_num path ns =
     (if length path < 2 then ns else send_along ns v round_num path source (tl path))"

definition send_via_multipath :: "system \<Rightarrow> int \<Rightarrow> int \<Rightarrow> string \<Rightarrow> int \<Rightarrow> int \<Rightarrow> system" where
  "send_via_multipath s source target v round_num k =
     (if source = target then s
      else s\<lparr>nodes := fold (send_path source v round_num)
                         (find_disjoint_paths (graph s) source target k) (nodes s)\<rparr>)"

subsection \<open>Final voting and the consensus check\<close>

definition all_values :: "node \<Rightarrow> string list" where
  "all_values n = concat (map (\<lambda>(round_num, logged). map fst logged) (received_messages n))"

definition decide :: "node \<Rightarrow> string" where
  "decide n = (if all_values n = [] then DEFAULT_VALUE else majority (all_values n))"

definition vote :: "node \<Rightarrow> node" where
  "vote n = n\<lparr>decision := Some (decide n)\<rparr>"

text \<open>
  \<open>final_voting\<close> visits \<open>sorted(self.nodes.items())\<close>: the keys of a dictionary
  differ, so the order is that of the ids.  It returns the decisions and leaves each
  node's \<open>decision\<close> set.
\<close>

fun final_voting_loop ::
  "(int \<times> node) list \<Rightarrow> (int \<times> node) list \<Rightarrow> (int \<times> string) list \<Rightarrow> (int \<times> string) list \<times> (int \<times> node) list" where
  "final_voting_loop [] ns decisions = (decisions, ns)"
| "final_voting_loop ((nid, n) # rest) ns decisions =
     final_voting_loop rest (AList.update nid (vote n) ns)
       (AList.update nid (decide n) decisions)"

definition final_voting :: "system \<Rightarrow> (int \<times> string) list \<times> system" where
  "final_voting s =
     (case final_voting_loop (sort_key fst (nodes s)) (nodes s) [] of
        (decisions, ns) \<Rightarrow> (decisions, s\<lparr>nodes := ns\<rparr>))"

datatype error = KeyError int | AttributeError

text \<open>The dictionary comprehension of \<open>check_consensus\<close>; \<open>self.nodes[nid]\<close> raises for an unknown id.\<close>

fun loyal_nodes :: "system \<Rightarrow> (int \<times> string) list \<Rightarrow> error + (int \<times> string) list" where
  "loyal_nodes s [] = Inr []"
| "loyal_nodes s ((nid, d) # rest) =
     (case map_of (nodes s) nid of
        None \<Rightarrow> Inl (KeyError nid)
      | Some n \<Rightarrow>
          (case loyal_nodes s rest of
             Inl e \<Rightarrow> Inl e
           | Inr loyal \<Rightarrow>
               Inr (if \<not> is_traitor n \<and> nid \<noteq> commander_id s then (nid, d) # loyal else loyal)))"

definition check_consensus :: "system \<Rightarrow> (int \<times> string) list \<Rightarrow> error + bool" where
  "check_consensus s decisions =
     (case loyal_nodes s decisions of
        Inl e \<Rightarrow> Inl e
      | Inr loyal \<Rightarrow>
          if loyal = [] then Inr True
          else (let first_decision = snd (hd loyal);
                    ic1_satisfied = list_all (\<lambda>(nid, d). d = first_decision) loyal
                in case map_of (nodes s) (commander_id s) of
                     None \<Rightarrow> Inl (KeyError (commander_id s))
                   | Some commander \<Rightarrow>
                       if \<not> is_traitor commander
                       then (case initial_value commander of
                               None \<Rightarrow> Inl AttributeError
                             | Some v \<Rightarrow>
                                 (let ic2_satisfied = list_all (\<lambda>(nid, d). d = v) loyal
                                  in Inr (ic1_satisfied \<and> (is_traitor commander \<or> ic2_satisfied))))
                       else Inr (ic1_satisfied \<and> (is_traitor commander \<or> True))))"

subsection \<open>The two protocol runs\<close>

text \<open>Round 0: the commander sends to every other node, in the dictionary's order.\<close>

definition commander_round :: "system \<Rightarrow> string \<Rightarrow> int \<Rightarrow> system" where
  "commander_round s v k_paths =
     fold (\<lambda>target s'. if target \<noteq> commander_id s'
                        then send_via_multipath s' (commander_id s') target v 0 k_paths else s')
       (map fst (nodes s)) s"

definition relay_from :: "int \<Rightarrow> int \<Rightarrow> int \<Rightarrow> system \<Rightarrow> system" where
  "relay_from round_num k_paths source s =
     (case map_of (nodes s) source of
        None \<Rightarrow> s
      | Some n \<Rightarrow>
          (let source_value = get_majority_from_paths n (round_num - 1)
           in fold (\<lambda>target s'. if target \<noteq> source
                                then send_via_multipath s' source target source_value round_num k_paths
                                else s')
                (map fst (nodes s)) s))"

definition oral_round :: "string \<Rightarrow> int \<Rightarrow> int \<Rightarrow> system \<Rightarrow> system" where
  "oral_round v k_paths round_num s =
     (if round_num = 0 then commander_round s v k_paths
      else fold (\<lambda>source s'. if source = commander_id s' then s'
                             else relay_from round_num k_paths source s')
             (map fst (nodes s)) s)"

definition signed_round :: "string \<Rightarrow> int \<Rightarrow> int \<Rightarrow> system \<Rightarrow> system" where
  "signed_round v k_paths round_num s =
     (if round_num = 0 then commander_round s v k_paths
      else fold (\<lambda>source s'. if source = commander_id s' then s'
                             else (case map_of (nodes s') source of
                                     None \<Rightarrow> s'
                                   | Some n \<Rightarrow>
                                       if round_num - 1 \<in> fst ` set (received_messages n)
                                       then relay_from round_num k_paths source s' else s'))
             (map fst (nodes s)) s)"

text \<open>\<open>range(max_rounds)\<close>: empty when \<open>max_rounds\<close> is not positive.\<close>

definition py_range :: "int \<Rightarrow> int list" where
  "py_range n = map int [0..<nat n]"

text \<open>The result \<open>None\<close> of a run is \<open>None\<close>; a run also returns the system as it leaves it.\<close>

definition run_oral_consensus :: "system \<Rightarrow> int \<Rightarrow> string \<Rightarrow> (int \<times> string) list option \<times> system" where
  "run_oral_consensus s m v =
     (if \<not> verify_connectivity (graph s) m False then (None, s)
      else (let max_rounds = m + 1;
                k_paths = 2 * m + 1;
                s' = fold (oral_round v k_paths) (py_range max_rounds) s
            in case final_voting s' of (decisions, s'') \<Rightarrow> (Some decisions, s'')))"

definition run_signed_consensus :: "system \<Rightarrow> int \<Rightarrow> string \<Rightarrow> (int \<times> string) list option \<times> system" where
  "run_signed_consensus s m v =
     (if \<not> verify_connectivity (graph s) m True then (None, s)
      else (let max_rounds = m + 1;
                k_paths = m + 1;
                s' = fold (signed_round v k_paths) (py_range max_rounds) s
            in case final_voting s' of (decisions, s'') \<Rightarrow> (Some decisions, s'')))"

section \<open>The signed-messages node (model/old/nodeplus.py)\<close>

text \<open>
  \<open>SignedMessagesNode\<close> with the parts of \<open>ByzantineNode\<close> and
  \<open>NetworkMessage\<close> it uses.  The node is attached to a network, as
  \<open>ByzantineSimulator.setup\<close> does; the messages it hands to
  \<open>network.send_message\<close> are returned in order.  What the network delivers, and
  when, depends on threads, delays and random loss: \<open>receive_values()\<close> is an
  arbitrary list of messages given to each round.  The \<open>timestamp\<close> of a message is
  left out.
\<close>

datatype Action = Action_ATTACK | Action_RETREAT | Action_UNKNOWN

fun action_value :: "Action \<Rightarrow> string" where
  "action_value Action_ATTACK = ''ATTACK''"
| "action_value Action_RETREAT = ''RETREAT''"
| "action_value Action_UNKNOWN = ''UNKNOWN''"

datatype sm_error = ActionKeyError string | IntValueError string | NoneAttributeError

text \<open>\<open>Action[name]\<close>: the member of that name, or \<open>KeyError\<close>.\<close>

definition action_by_name :: "string \<Rightarrow> sm_error + Action" where
  "action_by_name name =
     (if name = ''ATTACK'' then Inr Action_ATTACK
      else if name = ''RETREAT'' then Inr Action_RETREAT
      else if name = ''UNKNOWN'' then Inr Action_UNKNOWN
      else Inl (ActionKeyError name))"

record NetworkMessage =
  nm_sender_id :: int
  nm_receiver_id :: int
  nm_content :: string
  nm_path :: "int list"
  nm_round_num :: int
  nm_signature :: "string option"

record signed_node =
  sm_node_id :: int
  sm_is_faulty :: bool
  sm_total_nodes :: int
  signed_messages :: "(Action \<times> int list) list"
  sm_is_commander :: bool
  commander_value :: "Action option"

definition SignedMessagesNode :: "int \<Rightarrow> bool \<Rightarrow> int \<Rightarrow> signed_node" where
  "SignedMessagesNode nid faulty n_total =
     \<lparr>sm_node_id = nid, sm_is_faulty = faulty, sm_total_nodes = n_total, signed_messages = [],
      sm_is_commander = False, commander_value = None\<rparr>"

text \<open>\<open>str\<close> of an integer: its decimal digits, after a minus sign when it is negative.\<close>

fun str_nat :: "nat \<Rightarrow> string" where
  "str_nat n =
     (if n < 10 then [char_of (48 + n)] else str_nat (n div 10) @ [char_of (48 + n mod 10)])"

declare str_nat.simps [simp del]

definition py_str :: "int \<Rightarrow> string" where
  "py_str i = (if i < 0 then CHR ''-'' # str_nat (nat (- i)) else str_nat (nat i))"

text \<open>\<open>'':''.join\<close> and \<open>split('':'')\<close>.\<close>

fun join_colon :: "string list \<Rightarrow> string" where
  "join_colon [] = []"
| "join_colon [w] = w"
| "join_colon (w # w' # ws) = w @ CHR '':'' # join_colon (w' # ws)"

fun split_colon :: "string \<Rightarrow> string list" where
  "split_colon [] = [[]]"
| "split_colon (c # cs) =
     (if c = CHR '':'' then [] # split_colon cs
      else (case split_colon cs of [] \<Rightarrow> [[c]] | w # ws \<Rightarrow> (c # w) # ws))"

definition sign_message :: "signed_node \<Rightarrow> Action \<Rightarrow> int list \<Rightarrow> string" where
  "sign_message n v signatures =
     (let new_signatures = signatures @ [sm_node_id n]
      in action_value v @ CHR '':'' # join_colon (map py_str new_signatures))"

text \<open>
  \<open>verify_signature\<close>.  \<open>int\<close> reads more strings than \<open>str\<close> writes (spaces, a
  plus sign, underscores); it is the parameter \<open>py_int\<close>, whose \<open>None\<close> is
  \<open>ValueError\<close>.  The list comprehension stops at the first string \<open>int\<close> rejects.
\<close>

fun read_signatures :: "(string \<Rightarrow> int option) \<Rightarrow> string list \<Rightarrow> sm_error + int list" where
  "read_signatures py_int [] = Inr []"
| "read_signatures py_int (s # ss) =
     (if s = [] then read_signatures py_int ss
      else (case py_int s of
              None \<Rightarrow> Inl (IntValueError s)
            | Some i \<Rightarrow>
                (case read_signatures py_int ss of
                   Inl e \<Rightarrow> Inl e
                 | Inr signatures \<Rightarrow> Inr (i # signatures))))"

definition verify_signature ::
  "(string \<Rightarrow> int option) \<Rightarrow> string \<Rightarrow> sm_error + (Action \<times> int list)" where
  "verify_signature py_int signed_msg =
     (let parts = split_colon signed_msg
      in case action_by_name (hd parts) of
           Inl e \<Rightarrow> Inl e
         | Inr v \<Rightarrow>
             (case read_signatures py_int (tl parts) of
                Inl e \<Rightarrow> Inl e
              | Inr signatures \<Rightarrow> Inr (v, signatures)))"

text \<open>The nodes a signed value goes to: \<open>i\<close> in \<open>range(total_nodes)\<close>, not the node itself, not in the chain.\<close>

definition receivers :: "signed_node \<Rightarrow> int list \<Rightarrow> int list" where
  "receivers n signatures =
     filter (\<lambda>i. i \<noteq> sm_node_id n \<and> i \<notin> set signatures) (py_range (sm_total_nodes n))"

definition signed_sends :: "signed_node \<Rightarrow> int \<Rightarrow> string \<Rightarrow> int list \<Rightarrow> NetworkMessage list" where
  "signed_sends n round_num signed_msg signatures =
     map (\<lambda>i. \<lparr>nm_sender_id = sm_node_id n, nm_receiver_id = i, nm_content = signed_msg,
                nm_path = [], nm_round_num = round_num, nm_signature = Some signed_msg\<rparr>)
       (receivers n signatures)"

text \<open>
  The body of \<open>for msg in messages\<close> in \<open>process_round\<close>: the exception raised, if
  any, the node afterwards, and the messages sent.
\<close>

definition process_message ::
  "(string \<Rightarrow> int option) \<Rightarrow> int \<Rightarrow> signed_node \<Rightarrow> NetworkMessage
     \<Rightarrow> sm_error option \<times> signed_node \<times> NetworkMessage list" where
  "process_message py_int round_num n msg =
     (case nm_signature msg of
        None \<Rightarrow> (None, n, [])
      | Some sig \<Rightarrow>
          if sig = [] then (None, n, [])
          else (case verify_signature py_int sig of
                  Inl e \<Rightarrow> (Some e, n, [])
                | Inr (v, signatures) \<Rightarrow>
                    (let is_new = \<not> list_ex (\<lambda>(stored_val, stored_sigs).
                                      set signatures = set stored_sigs) (signed_messages n)
                     in if is_new
                        then (let n' = n\<lparr>signed_messages := signed_messages n @ [(v, signatures)]\<rparr>
                              in if int (length signatures) \<le> sm_total_nodes n
                                 then (None, n', signed_sends n (round_num + 1)
                                                   (sign_message n v signatures) signatures)
                                 else (None, n', []))
                        else (None, n, []))))"

fun process_messages ::
  "(string \<Rightarrow> int option) \<Rightarrow> int \<Rightarrow> signed_node \<Rightarrow> NetworkMessage list
     \<Rightarrow> sm_error option \<times> signed_node \<times> NetworkMessage list" where
  "process_messages py_int round_num n [] = (None, n, [])"
| "process_messages py_int round_num n (msg # msgs) =
     (case process_message py_int round_num n msg of
        (Some e, n', sent) \<Rightarrow> (Some e, n', sent)
      | (None, n', sent) \<Rightarrow>
          (case process_messages py_int round_num n' msgs of
             (e, n'', sent') \<Rightarrow> (e, n'', sent @ sent')))"

definition process_round ::
  "(string \<Rightarrow> int option) \<Rightarrow> int \<Rightarrow> signed_node \<Rightarrow> NetworkMessage list
     \<Rightarrow> sm_error option \<times> signed_node \<times> NetworkMessage list" where
  "process_round py_int round_num n delivered =
     (if round_num = 0 \<and> sm_is_commander n
      then (case commander_value n of
              None \<Rightarrow> (Some NoneAttributeError, n, [])
            | Some v \<Rightarrow> (None, n, signed_sends n round_num (sign_message n v []) []))
      else process_messages py_int round_num n delivered)"

text \<open>
  One node over the rounds of \<open>ByzantineSimulator.run\<close>: round \<open>round_num\<close>, then the
  following ones, each with what the network delivers to it; an exception ends the run.
\<close>

fun node_rounds ::
  "(string \<Rightarrow> int option) \<Rightarrow> int \<Rightarrow> signed_node \<Rightarrow> NetworkMessage list list
     \<Rightarrow> sm_error option \<times> signed_node \<times> NetworkMessage list" where
  "node_rounds py_int round_num n [] = (None, n, [])"
| "node_rounds py_int round_num n (delivered # later) =
     (case process_round py_int round_num n delivered of
        (Some e, n', sent) \<Rightarrow> (Some e, n', sent)
      | (None, n', sent) \<Rightarrow>
          (case node_rounds py_int (round_num + 1) n' later of
             (e, n'', sent') \<Rightarrow> (e, n'', sent @ sent')))"

definition node_run ::
  "(string \<Rightarrow> int option) \<Rightarrow> signed_node \<Rightarrow> NetworkMessage list list
     \<Rightarrow> sm_error option \<times> signed_node \<times> NetworkMessage list" where
  "node_run py_int n deliveries = node_rounds py_int 0 n deliveries"

text \<open>The stored signed values that were relayed: those whose chain is not longer than \<open>total_nodes\<close>.\<close>

definition relayable :: "signed_node \<Rightarrow> Action \<times> int list \<Rightarrow> bool" where
  "relayable n e = (case e of (v, signatures) \<Rightarrow> int (length signatures) \<le> sm_total_nodes n)"

definition relayed_entries :: "signed_node \<Rightarrow> (Action \<times> int list) list" where
  "relayed_entries n = filter (relayable n) (signed_messages n)"

text \<open>What a message says to whom: its receiver and its signature.\<close>

definition addressed :: "NetworkMessage list \<Rightarrow> (int \<times> string option) list" where
  "addressed sent = map (\<lambda>m. (nm_receiver_id m, nm_signature m)) sent"

definition relay_of :: "signed_node \<Rightarrow> Action \<times> int list \<Rightarrow> (int \<times> string option) list" where
  "relay_of n e =
     (case e of (v, signatures) \<Rightarrow>
        map (\<lambda>i. (i, Some (sign_message n v signatures))) (receivers n signatures))"

text \<open>A reader of plain decimal numerals, to run the examples: it agrees with \<open>int\<close> on what \<open>str\<close> writes.\<close>

fun read_digits :: "string \<Rightarrow> nat \<Rightarrow> nat option" where
  "read_digits [] acc = Some acc"
| "read_digits (c # cs) acc =
     (if (48::nat) \<le> of_char c \<and> (of_char c :: nat) \<le> 57
      then read_digits cs (10 * acc + ((of_char c :: nat) - 48))
      else None)"

definition read_decimal :: "string \<Rightarrow> int option" where
  "read_decimal s =
     (case s of
        [] \<Rightarrow> None
      | c # cs \<Rightarrow>
          if c = CHR ''-'' then (if cs = [] then None else map_option (\<lambda>k. - int k) (read_digits cs 0))
          else map_option int (read_digits s 0))"

subsection \<open>Example systems\<close>

text \<open>The two systems of \<open>test_examples\<close>, and smaller ones.\<close>

definition line_topology :: system where
  "line_topology =
     add_node (add_node (add_node (add_node (set_commander PartialTopologyBFT 0 [1] ATTACK)
       1 [0, 2] False) 2 [1, 3] True) 3 [2, 4] False) 4 [3] False"

definition complete4 :: system where
  "complete4 =
     add_node (add_node (add_node (set_commander PartialTopologyBFT 0 [1, 2, 3] ATTACK)
       1 [0, 2, 3] False) 2 [0, 1, 3] True) 3 [0, 1, 2] False"

definition complete4_two_traitors :: system where
  "complete4_two_traitors =
     add_node (add_node (add_node (set_commander PartialTopologyBFT 0 [1, 2, 3] ATTACK)
       1 [0, 2, 3] True) 2 [0, 1, 3] True) 3 [0, 1, 2] False"

definition complete3 :: system where
  "complete3 =
     add_node (add_node (set_commander PartialTopologyBFT 0 [1, 2] ATTACK)
       1 [0, 2] False) 2 [0, 1] False"

definition two_nodes :: system where
  "two_nodes = add_node (set_commander PartialTopologyBFT 0 [1] ATTACK) 1 [0] False"

definition lone_traitor :: system where
  "lone_traitor = add_node (set_commander PartialTopologyBFT 0 [1] ATTACK) 1 [0] True"

text \<open>The ring on \<open>n\<close> nodes: node \<open>i\<close> is adjacent to \<open>i - 1\<close> and \<open>i + 1\<close> modulo \<open>n\<close>.\<close>

definition ring_graph :: "nat \<Rightarrow> (int \<times> int list) list" where
  "ring_graph n =
     map (\<lambda>i. (int i, remdups [(int i - 1) mod int n, (int i + 1) mod int n])) [0..<n]"

text \<open>
  A lieutenant of a three-node system and what it is delivered in rounds 0, 1 and 2: the
  commander's signed value, the same value again with a relay of it by node 2, and a
  value whose signer set it has already stored.
\<close>

definition lieutenant_one :: signed_node where
  "lieutenant_one = SignedMessagesNode 1 False 3"

definition signed_message :: "int \<Rightarrow> int \<Rightarrow> string \<Rightarrow> int \<Rightarrow> NetworkMessage" where
  "signed_message sender receiver signed_msg round_num =
     \<lparr>nm_sender_id = sender, nm_receiver_id = receiver, nm_content = signed_msg, nm_path = [],
      nm_round_num = round_num, nm_signature = Some signed_msg\<rparr>"

definition delivered_example :: "NetworkMessage list list" where
  "delivered_example =
     [[signed_message 0 1 ''ATTACK:0'' 0],
      [signed_message 0 1 ''ATTACK:0'' 0, signed_message 2 1 ''ATTACK:0:2'' 1],
      [signed_message 2 1 ''RETREAT:2:0'' 1]]"

text \<open>What a node logged in one round.\<close>

definition round_log :: "system \<Rightarrow> int \<Rightarrow> int \<Rightarrow> (string \<times> int list) list" where
  "round_log s nid round_num =
     (case map_of (nodes s) nid of
        None \<Rightarrow> []
      | Some n \<Rightarrow> (case map_of (received_messages n) round_num of None \<Rightarrow> [] | Some l \<Rightarrow> l))"

text \<open>Every path logged by any node of a system, over all rounds.\<close>

definition logged_paths :: "system \<Rightarrow> int list list" where
  "logged_paths s =
     concat (map (\<lambda>(nid, n). concat (map (\<lambda>(round_num, logged). map snd logged)
                                        (received_messages n))) (nodes s))"

text \<open>
  The decision rule as the specification words it for final voting: the majority rule
  of \<open>get_majority_from_paths\<close> over the (value, path) pairs of every round, each
  round's pairs counted once.
\<close>

definition spec_decide :: "node \<Rightarrow> string" where
  "spec_decide n =
     (let vs = concat (map (\<lambda>(round_num, logged). map fst (remdups logged)) (received_messages n))
      in if vs = [] then DEFAULT_VALUE else majority vs)"

section \<open>Properties\<close>

subsection \<open>The pre-flight gate\<close>

text \<open>
  C9.  When \<open>verify_connectivity\<close> fails, \<open>run_oral_consensus\<close> (with the oral
  requirement) and \<open>run_signed_consensus\<close> (with the signed one) return no decisions
  and leave the whole system as it was: no round runs, so no message is recorded as sent,
  and no node's received log or decision changes.
\<close>

theorem failed_gate_runs_nothing:
  "(\<not> verify_connectivity (graph s) m False \<longrightarrow> run_oral_consensus s m v = (None, s)) \<and>
   (\<not> verify_connectivity (graph s) m True \<longrightarrow> run_signed_consensus s m v = (None, s))"
  by (simp add: run_oral_consensus_def run_signed_consensus_def)

theorem failed_gate_runs_nothing_witness:
  "\<not> verify_connectivity (graph line_topology) 1 False \<and>
   \<not> verify_connectivity (graph line_topology) 1 True \<and>
   run_oral_consensus line_topology 1 ATTACK = (None, line_topology) \<and>
   run_signed_consensus line_topology 1 ATTACK = (None, line_topology)"
proof -
  have oral: "\<not> verify_connectivity (graph line_topology) 1 False"
    by code_simp
  have signed: "\<not> verify_connectivity (graph line_topology) 1 True"
    by code_simp
  from failed_gate_runs_nothing[of line_topology 1 ATTACK] oral signed
  show ?thesis by simp
qed

text \<open>
  C6, as the code has it.  \<open>verify_connectivity\<close> returns the verdict alone (the
  computed connectivity is printed, not returned).  The verdict is
  \<open>connectivity \<ge> 2m + 1\<close> for oral and \<open>connectivity \<ge> m + 1\<close> for signed
  messages; for \<open>m \<ge> 0\<close> the signed requirement is at most the oral one, so a graph
  that passes the oral gate passes the signed gate.
\<close>

theorem verify_connectivity_thresholds:
  "verify_connectivity g m use_signed_messages
     = (if use_signed_messages then calculate_node_connectivity g \<ge> m + 1
        else calculate_node_connectivity g \<ge> 2 * m + 1) \<and>
   (0 \<le> m \<longrightarrow> required_connectivity m True \<le> required_connectivity m False) \<and>
   (0 \<le> m \<longrightarrow> verify_connectivity g m False \<longrightarrow> verify_connectivity g m True)"
  by (simp add: verify_connectivity_def required_connectivity_def)

theorem verify_connectivity_thresholds_witness:
  "(0::int) \<le> 1 \<and> verify_connectivity (graph complete4) 1 False \<and>
   verify_connectivity (graph complete4) 1 True \<and>
   required_connectivity 1 True \<le> required_connectivity 1 False"
proof -
  have oral: "verify_connectivity (graph complete4) 1 False"
    by code_simp
  from verify_connectivity_thresholds[of "graph complete4" 1 False] oral
  show ?thesis by simp
qed

text \<open>
  The claim as stated fails: two graphs of different computed connectivity get the same
  result, so the result does not carry the connectivity; and for \<open>m = -1\<close> the signed
  requirement exceeds the oral one.
\<close>

theorem verify_connectivity_counterexample:
  "verify_connectivity (graph complete3) 0 False = verify_connectivity (graph complete4) 0 False \<and>
   calculate_node_connectivity (graph complete3) = 2 \<and>
   calculate_node_connectivity (graph complete4) = 3 \<and>
   required_connectivity (- 1) True > required_connectivity (- 1) False"
proof -
  have c3: "calculate_node_connectivity (graph complete3) = 2"
    by code_simp
  have c4: "calculate_node_connectivity (graph complete4) = 3"
    by code_simp
  show ?thesis
    by (simp add: c3 c4 verify_connectivity_def required_connectivity_def)
qed

subsection \<open>The consensus check\<close>

lemma loyal_nodes_empty:
  assumes "\<forall>nid \<in> fst ` set ds. \<exists>n. map_of (nodes s) nid = Some n \<and>
             (is_traitor n \<or> nid = commander_id s)"
  shows "loyal_nodes s ds = Inr []"
  using assms
proof (induction ds)
  case Nil
  show ?case by simp
next
  case (Cons p ds)
  obtain nid d where p: "p = (nid, d)" by (cases p)
  from Cons.prems p obtain n where
    n: "map_of (nodes s) nid = Some n" "is_traitor n \<or> nid = commander_id s"
    by auto
  from Cons.prems have "loyal_nodes s ds = Inr []"
    by (intro Cons.IH) auto
  with n p show ?case by auto
qed

text \<open>
  C10, as the code has it.  For a decisions map whose keys are all registered nodes,
  \<open>check_consensus\<close> returns \<open>True\<close> whenever every node other than the commander
  is a traitor, whatever the decided values are.
\<close>

theorem check_consensus_no_loyal:
  assumes "fst ` set decisions \<subseteq> fst ` set (nodes s)"
    and "\<forall>nid n. map_of (nodes s) nid = Some n \<longrightarrow> nid \<noteq> commander_id s \<longrightarrow> is_traitor n"
  shows "check_consensus s decisions = Inr True"
proof -
  have "\<forall>nid \<in> fst ` set decisions. \<exists>n. map_of (nodes s) nid = Some n \<and>
          (is_traitor n \<or> nid = commander_id s)"
  proof
    fix nid assume "nid \<in> fst ` set decisions"
    with assms(1) have "nid \<in> fst ` set (nodes s)" by blast
    then obtain n where "map_of (nodes s) nid = Some n"
      by (metis domD dom_map_of_conv_image_fst)
    with assms(2) show "\<exists>n. map_of (nodes s) nid = Some n \<and>
          (is_traitor n \<or> nid = commander_id s)"
      by blast
  qed
  then have "loyal_nodes s decisions = Inr []" by (rule loyal_nodes_empty)
  then show ?thesis by (simp add: check_consensus_def)
qed

theorem check_consensus_no_loyal_witness:
  "check_consensus lone_traitor [(0, ATTACK), (1, RETREAT)] = Inr True"
proof -
  have keys: "fst ` set [(0::int, ATTACK), (1, RETREAT)] \<subseteq> fst ` set (nodes lone_traitor)"
    by (simp add: lone_traitor_def add_node_def set_commander_def PartialTopologyBFT_def)
  have traitors: "\<forall>nid n. map_of (nodes lone_traitor) nid = Some n \<longrightarrow>
      nid \<noteq> commander_id lone_traitor \<longrightarrow> is_traitor n"
    by (auto simp: lone_traitor_def add_node_def set_commander_def PartialTopologyBFT_def
          Node_def Commander_def split: if_splits)
  from check_consensus_no_loyal[OF keys traitors] show ?thesis .
qed

text \<open>
  The claim as stated fails for a decisions map that names an unregistered id: every
  node but the commander is a traitor, and the check raises \<open>KeyError\<close>.
\<close>

theorem check_consensus_counterexample:
  "list_all (\<lambda>(nid, n). nid = commander_id lone_traitor \<or> is_traitor n) (nodes lone_traitor) \<and>
   check_consensus lone_traitor [(99, ATTACK)] = Inl (KeyError 99)"
  by code_simp

subsection \<open>Final voting\<close>

text \<open>
  C1 at a run the code makes.  Two adjacent nodes, the commander 0 constructed with
  \<open>ATTACK\<close>, fault bound 0: the gate passes, round 0 runs, and final voting records
  \<open>RETREAT\<close> for the commander, whose log is empty.
\<close>

theorem commander_decision_overwritten:
  "map_of (nodes two_nodes) (commander_id two_nodes) = Some (Commander 0 [1] ATTACK) \<and>
   fst (run_oral_consensus two_nodes 0 ATTACK) = Some [(0, RETREAT), (1, ATTACK)] \<and>
   RETREAT \<noteq> ATTACK"
  by code_simp

text \<open>
  C2 at a run the code makes.  The complete graph on four nodes, nodes 1 and 2 traitors,
  oral messages with fault bound 1: the loyal node 3 logs several (value, path) pairs
  more than once, final voting counts every copy and records \<open>RETREAT\<close>, and the rule
  over the pairs counted once gives \<open>ATTACK\<close>.
\<close>

theorem final_voting_counts_duplicates:
  "map (\<lambda>(nid, n). (nid, decision n, spec_decide n))
     (nodes (snd (run_oral_consensus complete4_two_traitors 1 ATTACK)))
   = [(0, Some ATTACK, ATTACK), (1, Some ATTACK, ATTACK),
      (2, Some ATTACK, ATTACK), (3, Some RETREAT, ATTACK)]"
  by code_simp

subsection \<open>Message paths\<close>

text \<open>
  C3 at a run the code makes.  In the run of the two-node system the only message is the
  commander's to node 1, and the path it carries is \<open>[0, 0]\<close>: \<open>send_via_multipath\<close>
  passes the prefix up to and including the sender, and \<open>send_message\<close> appends the
  sender again.
\<close>

theorem relayed_path_repeats_sender:
  "logged_paths (snd (run_oral_consensus two_nodes 0 ATTACK)) = [[0, 0]] \<and>
   \<not> list_all distinct (logged_paths (snd (run_oral_consensus two_nodes 0 ATTACK)))"
  by code_simp

subsection \<open>Disjoint paths\<close>

lemma path_in_graph_snoc:
  "path_in_graph g p \<Longrightarrow> p \<noteq> [] \<Longrightarrow> nb \<in> set (graph_get g (last p)) \<Longrightarrow>
   path_in_graph g (p @ [nb])"
  by (induction g p rule: path_in_graph.induct) auto

lemma find_all_paths_loop_sound:
  assumes "\<forall>e \<in> set queue. snd e \<noteq> [] \<and> last (snd e) = fst e \<and> hd (snd e) = source \<and>
             distinct (snd e) \<and> path_in_graph g (snd e)"
    and "\<forall>p \<in> set paths. p \<noteq> [] \<and> last p = target \<and> hd p = source \<and> distinct p \<and>
             path_in_graph g p"
  shows "\<forall>p \<in> set (find_all_paths_loop g target max_length queue paths).
           p \<noteq> [] \<and> last p = target \<and> hd p = source \<and> distinct p \<and> path_in_graph g p"
  using assms
proof (induction g target max_length queue paths rule: find_all_paths_loop.induct)
  case (1 g target max_length paths)
  then show ?case by simp
next
  case (2 g target max_length current path queue paths)
  from "2.prems"(1) have cur: "path \<noteq> []" "last path = current" "hd path = source"
      "distinct path" "path_in_graph g path"
    and rest: "\<forall>e \<in> set queue. snd e \<noteq> [] \<and> last (snd e) = fst e \<and> hd (snd e) = source \<and>
             distinct (snd e) \<and> path_in_graph g (snd e)"
    by auto
  show ?case
  proof (cases "current = target")
    case True
    have "\<forall>p \<in> set (paths @ [path]). p \<noteq> [] \<and> last p = target \<and> hd p = source \<and> distinct p \<and>
             path_in_graph g p"
      using "2.prems"(2) cur True by auto
    from "2.IH"(1)[OF True rest this] True show ?thesis by simp
  next
    case False
    show ?thesis
    proof (cases "max_length \<le> int (length path)")
      case True
      from "2.IH"(2)[OF False True rest "2.prems"(2)] False True show ?thesis by simp
    next
      case long: False
      have ext: "\<forall>e \<in> set (extend_path g current path). snd e \<noteq> [] \<and> last (snd e) = fst e \<and>
             hd (snd e) = source \<and> distinct (snd e) \<and> path_in_graph g (snd e)"
        using cur by (auto simp: extend_path_def intro: path_in_graph_snoc)
      have "\<forall>e \<in> set (queue @ extend_path g current path). snd e \<noteq> [] \<and> last (snd e) = fst e \<and>
             hd (snd e) = source \<and> distinct (snd e) \<and> path_in_graph g (snd e)"
        using rest ext by auto
      from "2.IH"(3)[OF False long this "2.prems"(2)] False long show ?thesis by simp
    qed
  qed
qed

lemma find_all_paths_sound:
  "\<forall>p \<in> set (find_all_paths g source target max_length).
     p \<noteq> [] \<and> last p = target \<and> hd p = source \<and> distinct p \<and> path_in_graph g p"
proof (cases "source \<notin> fst ` set g \<or> target \<notin> fst ` set g")
  case True
  then show ?thesis by (auto simp: find_all_paths_def)
next
  case False
  have "\<forall>p \<in> set (find_all_paths_loop g target max_length [(source, [source])] []).
     p \<noteq> [] \<and> last p = target \<and> hd p = source \<and> distinct p \<and> path_in_graph g p"
    by (rule find_all_paths_loop_sound) auto
  with False show ?thesis by (simp add: find_all_paths_def)
qed

lemma select_disjoint_subset:
  "set (select_disjoint k ps acc used) \<subseteq> set acc \<union> set ps"
proof (induction k ps acc used rule: select_disjoint.induct)
  case (1 k disjoint_paths used_edges)
  show ?case by simp
next
  case (2 k path rest disjoint_paths used_edges)
  show ?case
  proof (cases "path_edges path \<inter> used_edges = {}")
    case True
    show ?thesis
    proof (cases "k \<le> int (length (disjoint_paths @ [path]))")
      case stop: True
      with True show ?thesis by auto
    next
      case go: False
      from "2.IH"(1)[OF True go] True go show ?thesis by auto
    qed
  next
    case False
    show ?thesis
    proof (cases "k \<le> int (length disjoint_paths)")
      case stop: True
      with False show ?thesis by auto
    next
      case go: False
      from "2.IH"(2)[OF False go] False go show ?thesis by auto
    qed
  qed
qed

lemma select_disjoint_pairwise:
  "sorted_wrt are_paths_edge_disjoint acc \<Longrightarrow> used = \<Union> (path_edges ` set acc) \<Longrightarrow>
   sorted_wrt are_paths_edge_disjoint (select_disjoint k ps acc used)"
proof (induction k ps acc used rule: select_disjoint.induct)
  case (1 k disjoint_paths used_edges)
  then show ?case by simp
next
  case (2 k path rest disjoint_paths used_edges)
  show ?case
  proof (cases "path_edges path \<inter> used_edges = {}")
    case True
    with "2.prems"(2) have "\<forall>q \<in> set disjoint_paths. are_paths_edge_disjoint q path"
      by (auto simp: are_paths_edge_disjoint_def)
    with "2.prems"(1) have ext: "sorted_wrt are_paths_edge_disjoint (disjoint_paths @ [path])"
      by (simp add: sorted_wrt_append)
    have used: "used_edges \<union> path_edges path = \<Union> (path_edges ` set (disjoint_paths @ [path]))"
      using "2.prems"(2) by auto
    show ?thesis
    proof (cases "k \<le> int (length (disjoint_paths @ [path]))")
      case stop: True
      with True ext show ?thesis by simp
    next
      case go: False
      from "2.IH"(1)[OF True go ext used] True go show ?thesis by simp
    qed
  next
    case False
    show ?thesis
    proof (cases "k \<le> int (length disjoint_paths)")
      case stop: True
      with False "2.prems"(1) show ?thesis by simp
    next
      case go: False
      from "2.IH"(2)[OF False go "2.prems"] False go show ?thesis by simp
    qed
  qed
qed

lemma select_disjoint_length:
  "int (length (select_disjoint k ps acc used)) \<le> max k (int (length acc) + 1)"
proof (induction k ps acc used rule: select_disjoint.induct)
  case (1 k disjoint_paths used_edges)
  show ?case by simp
next
  case (2 k path rest disjoint_paths used_edges)
  show ?case
  proof (cases "path_edges path \<inter> used_edges = {}")
    case True
    show ?thesis
    proof (cases "k \<le> int (length (disjoint_paths @ [path]))")
      case stop: True
      with True show ?thesis by simp
    next
      case go: False
      from "2.IH"(1)[OF True go] True go show ?thesis by simp
    qed
  next
    case False
    show ?thesis
    proof (cases "k \<le> int (length disjoint_paths)")
      case stop: True
      with False show ?thesis by simp
    next
      case go: False
      from "2.IH"(2)[OF False go] False go show ?thesis by simp
    qed
  qed
qed

text \<open>
  C7, as the code has it.  For every graph, source, target and \<open>k\<close>, no two of the
  paths returned by \<open>find_disjoint_paths\<close> share an edge, every returned path is a
  path of the graph from the source to the target with no repeated node, and at most
  \<open>max k 1\<close> paths are returned: at most \<open>k\<close> whenever \<open>k \<ge> 1\<close>.
\<close>

theorem find_disjoint_paths_sound:
  "(\<forall>i j. i < j \<and> j < length (find_disjoint_paths g source target k) \<longrightarrow>
       are_paths_edge_disjoint (find_disjoint_paths g source target k ! i)
                               (find_disjoint_paths g source target k ! j)) \<and>
   (\<forall>p \<in> set (find_disjoint_paths g source target k).
       p \<noteq> [] \<and> hd p = source \<and> last p = target \<and> distinct p \<and> path_in_graph g p) \<and>
   int (length (find_disjoint_paths g source target k)) \<le> max k 1"
proof (cases "source = target")
  case True
  then show ?thesis by (simp add: find_disjoint_paths_def)
next
  case False
  define all_paths where "all_paths = sort_key length (find_all_paths g source target 10)"
  have R: "find_disjoint_paths g source target k = select_disjoint k all_paths [] {}"
    using False by (simp add: find_disjoint_paths_def all_paths_def)
  have "sorted_wrt are_paths_edge_disjoint (select_disjoint k all_paths [] {})"
    by (rule select_disjoint_pairwise) auto
  then have pairwise: "\<forall>i j. i < j \<and> j < length (select_disjoint k all_paths [] {}) \<longrightarrow>
       are_paths_edge_disjoint (select_disjoint k all_paths [] {} ! i)
                               (select_disjoint k all_paths [] {} ! j)"
    by (simp add: sorted_wrt_iff_nth_less)
  have "set (select_disjoint k all_paths [] {}) \<subseteq> set (find_all_paths g source target 10)"
    using select_disjoint_subset[of k all_paths "[]" "{}"] by (simp add: all_paths_def)
  with find_all_paths_sound[of g source target 10]
  have simple: "\<forall>p \<in> set (select_disjoint k all_paths [] {}).
       p \<noteq> [] \<and> hd p = source \<and> last p = target \<and> distinct p \<and> path_in_graph g p"
    by blast
  have "int (length (select_disjoint k all_paths [] {})) \<le> max k 1"
    using select_disjoint_length[of k all_paths "[]" "{}"] by simp
  with pairwise simple show ?thesis unfolding R by blast
qed

theorem find_disjoint_paths_sound_witness:
  "find_disjoint_paths (graph complete3) 1 0 2 = [[1, 0], [1, 2, 0]] \<and>
   are_paths_edge_disjoint [1, 0] [1, 2, 0] \<and>
   int (length (find_disjoint_paths (graph complete3) 1 0 2)) \<le> 2"
proof -
  have R: "find_disjoint_paths (graph complete3) 1 0 2 = [[1, 0], [1, 2, 0]]"
    by code_simp
  from find_disjoint_paths_sound[of "graph complete3" 1 0 2]
  have "are_paths_edge_disjoint (find_disjoint_paths (graph complete3) 1 0 2 ! 0)
          (find_disjoint_paths (graph complete3) 1 0 2 ! 1)"
    and "int (length (find_disjoint_paths (graph complete3) 1 0 2)) \<le> max 2 1"
    unfolding R by auto
  then show ?thesis unfolding R by simp
qed

text \<open>
  The claim as stated fails for \<open>k = 0\<close>: the loop tests the count only after it has
  looked at a path, so one path is returned.
\<close>

theorem find_disjoint_paths_counterexample:
  "find_disjoint_paths (graph complete3) 1 0 0 = [[1, 0]] \<and>
   \<not> int (length (find_disjoint_paths (graph complete3) 1 0 0)) \<le> 0"
  by code_simp


subsection \<open>Node connectivity\<close>

lemma combinations_sound:
  "c \<in> set (combinations xs k) \<Longrightarrow> set c \<subseteq> set xs \<and> length c = k \<and> (distinct xs \<longrightarrow> distinct c)"
proof (induction xs k arbitrary: c rule: combinations.induct)
  case (1 xs)
  then show ?case by simp
next
  case (2 k)
  then show ?case by simp
next
  case (3 x xs k)
  from "3.prems" consider c' where "c = x # c'" "c' \<in> set (combinations xs k)"
    | "c \<in> set (combinations xs (Suc k))"
    by auto
  then show ?case
  proof cases
    case 1
    with "3.IH"(1)[of c'] show ?thesis by auto
  next
    case 2
    with "3.IH"(2)[of c] show ?thesis by auto
  qed
qed

lemma combinations_complete:
  "S \<subseteq> set xs \<Longrightarrow> card S = k \<Longrightarrow> \<exists>c \<in> set (combinations xs k). set c = S"
proof (induction xs k arbitrary: S rule: combinations.induct)
  case (1 xs)
  then have "finite S" by (meson finite_subset List.finite_set)
  with 1 have "S = {}" by simp
  then show ?case by simp
next
  case (2 k)
  then show ?case by simp
next
  case (3 x xs k)
  have fin: "finite S" using "3.prems"(1) by (meson finite_subset List.finite_set)
  show ?case
  proof (cases "x \<in> S")
    case True
    then have "card (S - {x}) = k" using "3.prems"(2) fin by simp
    moreover have "S - {x} \<subseteq> set xs" using "3.prems"(1) by auto
    ultimately obtain c where c: "c \<in> set (combinations xs k)" "set c = S - {x}"
      using "3.IH"(1) by blast
    then have "x # c \<in> set (combinations (x # xs) (Suc k))" by simp
    moreover have "set (x # c) = S" using c True by auto
    ultimately show ?thesis by blast
  next
    case False
    then have "S \<subseteq> set xs" using "3.prems"(1) by auto
    then obtain c where "c \<in> set (combinations xs (Suc k))" "set c = S"
      using "3.IH"(2) "3.prems"(2) by blast
    then show ?thesis by auto
  qed
qed

lemma visit_fold_mono: "v \<subseteq> fst (fold (visit_step excluded) nbs (v, q))"
proof (induction nbs arbitrary: v q)
  case Nil
  show ?case by simp
next
  case (Cons nb nbs)
  show ?case
  proof (cases "nb \<notin> excluded \<and> nb \<notin> v")
    case True
    then have "fold (visit_step excluded) (nb # nbs) (v, q)
        = fold (visit_step excluded) nbs (insert nb v, q @ [nb])"
      by (simp add: visit_step_def)
    with Cons.IH[of "insert nb v" "q @ [nb]"] show ?thesis by auto
  next
    case False
    then have "fold (visit_step excluded) (nb # nbs) (v, q) = fold (visit_step excluded) nbs (v, q)"
      by (auto simp: visit_step_def)
    with Cons.IH[of v q] show ?thesis by simp
  qed
qed

lemma bfs_visit_mono: "visited \<subseteq> bfs_visit g excluded queue visited"
proof (induction g excluded queue visited rule: bfs_visit.induct)
  case (1 g excluded visited)
  show ?case by simp
next
  case (2 g excluded current queue visited)
  obtain v' q' where r: "fold (visit_step excluded) (graph_get g current) (visited, queue) = (v', q')"
    by (cases "fold (visit_step excluded) (graph_get g current) (visited, queue)")
  have "visited \<subseteq> v'" using visit_fold_mono[of visited excluded "graph_get g current" queue] r by simp
  moreover have "v' \<subseteq> bfs_visit g excluded q' v'" using "2.IH"[OF r[symmetric]] .
  ultimately show ?case using r by simp
qed

lemma one_left_connected:
  assumes ne: "g \<noteq> []" and d: "distinct (map fst g)" and S: "S \<subseteq> fst ` set g"
    and c: "length g - 1 \<le> card S"
  shows "is_graph_connected g (Some S)"
proof (cases "find (\<lambda>node. node \<notin> S) (map fst g)")
  case None
  with ne show ?thesis by (simp add: is_graph_connected_def)
next
  case (Some start)
  then have start: "start \<in> fst ` set g" "start \<notin> S"
    by (auto simp: find_Some_iff)
  have "card (fst ` set g) = length g"
    using d distinct_card[of "map fst g"] by simp
  moreover have "card (fst ` set g - S) = card (fst ` set g) - card S"
    using S by (intro card_Diff_subset) (auto intro: finite_subset)
  ultimately have small: "card (fst ` set g - S) \<le> 1" using c by simp
  have only: "node = start" if "node \<in> fst ` set g" "node \<notin> S" for node
  proof -
    have "finite (fst ` set g - S)" by simp
    with small that start show ?thesis
      by (metis DiffI One_nat_def card_le_Suc0_iff_eq)
  qed
  define V where "V = bfs_visit g S [start] {start}"
  have "{start} \<subseteq> V"
    unfolding V_def by (rule bfs_visit_mono)
  with only have "\<not> list_ex (\<lambda>node. node \<notin> S \<and> node \<notin> V) (map fst g)"
    by (auto simp: list_ex_iff)
  with Some ne show ?thesis
    unfolding is_graph_connected_def V_def Let_def by (simp del: bfs_visit.simps)
qed

lemma disconnecting_combination_iff:
  assumes "distinct (map fst g)"
  shows "list_ex (\<lambda>nodes_to_remove. \<not> is_graph_connected g (Some (set nodes_to_remove)))
           (combinations (map fst g) k)
         \<longleftrightarrow> (\<exists>S. S \<subseteq> fst ` set g \<and> card S = k \<and> \<not> is_graph_connected g (Some S))"
proof
  assume "list_ex (\<lambda>nodes_to_remove. \<not> is_graph_connected g (Some (set nodes_to_remove)))
           (combinations (map fst g) k)"
  then obtain c where c: "c \<in> set (combinations (map fst g) k)"
      "\<not> is_graph_connected g (Some (set c))"
    by (auto simp: list_ex_iff)
  from combinations_sound[OF c(1)] assms have "set c \<subseteq> fst ` set g" "card (set c) = k"
    by (auto simp: distinct_card)
  with c(2) show "\<exists>S. S \<subseteq> fst ` set g \<and> card S = k \<and> \<not> is_graph_connected g (Some S)"
    by blast
next
  assume "\<exists>S. S \<subseteq> fst ` set g \<and> card S = k \<and> \<not> is_graph_connected g (Some S)"
  then obtain S where S: "S \<subseteq> set (map fst g)" "card S = k" "\<not> is_graph_connected g (Some S)"
    by auto
  from combinations_complete[OF S(1,2)] S(3)
  show "list_ex (\<lambda>nodes_to_remove. \<not> is_graph_connected g (Some (set nodes_to_remove)))
           (combinations (map fst g) k)"
    by (auto simp: list_ex_iff)
qed

lemma connectivity_loop_found:
  assumes "i \<le> k" "k < n"
    and "list_ex (\<lambda>c. \<not> is_graph_connected g (Some (set c))) (combinations nodes_list k)"
    and "\<forall>j. i \<le> j \<and> j < k \<longrightarrow>
           \<not> list_ex (\<lambda>c. \<not> is_graph_connected g (Some (set c))) (combinations nodes_list j)"
  shows "connectivity_loop g nodes_list [i..<n] = int k - 1"
  using assms
proof (induction "k - i" arbitrary: i)
  case 0
  then have "i = k" by simp
  with 0 show ?case by (simp add: upt_conv_Cons)
next
  case (Suc d)
  then have lt: "i < k" by simp
  with Suc.prems have "[i..<n] = i # [Suc i..<n]" by (simp add: upt_conv_Cons)
  moreover have "\<not> list_ex (\<lambda>c. \<not> is_graph_connected g (Some (set c))) (combinations nodes_list i)"
    using Suc.prems(4) lt by simp
  moreover have "connectivity_loop g nodes_list [Suc i..<n] = int k - 1"
    using Suc.hyps(2) Suc.prems lt by (intro Suc.hyps(1)) auto
  ultimately show ?case by simp
qed

lemma connectivity_loop_none:
  assumes "\<forall>j. i \<le> j \<and> j < n \<longrightarrow>
           \<not> list_ex (\<lambda>c. \<not> is_graph_connected g (Some (set c))) (combinations nodes_list j)"
  shows "connectivity_loop g nodes_list [i..<n] = int (length nodes_list) - 1"
  using assms
proof (induction "n - i" arbitrary: i)
  case 0
  then show ?case by simp
next
  case (Suc d)
  then have "i < n" by simp
  then have "[i..<n] = i # [Suc i..<n]" by (simp add: upt_conv_Cons)
  moreover have "connectivity_loop g nodes_list [Suc i..<n] = int (length nodes_list) - 1"
    using Suc.hyps(2) Suc.prems by (intro Suc.hyps(1)) auto
  ultimately show ?case using Suc.prems \<open>i < n\<close> by simp
qed

text \<open>
  C5.  For a graph with at least two nodes, \<open>calculate_node_connectivity\<close> follows
  the stated algorithm, whose sizes start at 1.  A set of nodes disconnects the graph when
  \<open>is_graph_connected\<close>, the breadth-first check from the first node that is not
  removed, fails for it.  If \<open>k \<ge> 1\<close> is the smallest size of a disconnecting set
  of nodes, the result is \<open>k - 1\<close>; if no set of at least one and fewer than
  \<open>n - 1\<close> nodes disconnects the graph, the result is \<open>n - 1\<close>.  The keys of the
  graph dictionary are distinct.
\<close>

theorem node_connectivity_algorithm:
  assumes d: "distinct (map fst g)" and n: "2 \<le> length g"
  shows "(\<forall>k S. 1 \<le> k \<and> S \<subseteq> fst ` set g \<and> card S = k \<and> \<not> is_graph_connected g (Some S) \<and>
            (\<forall>T. T \<subseteq> fst ` set g \<and> 1 \<le> card T \<and> card T < k \<longrightarrow> is_graph_connected g (Some T))
            \<longrightarrow> calculate_node_connectivity g = int k - 1) \<and>
         ((\<forall>T. T \<subseteq> fst ` set g \<and> 1 \<le> card T \<and> card T < length g - 1
               \<longrightarrow> is_graph_connected g (Some T))
            \<longrightarrow> calculate_node_connectivity g = int (length g) - 1)"
proof (intro conjI allI impI)
  from n have ne: "g \<noteq> []" by auto
  have calc: "calculate_node_connectivity g = connectivity_loop g (map fst g) [1..<length g]"
    using n ne by (simp add: calculate_node_connectivity_def)
  {
    fix k S
    assume a: "1 \<le> k \<and> S \<subseteq> fst ` set g \<and> card S = k \<and> \<not> is_graph_connected g (Some S) \<and>
            (\<forall>T. T \<subseteq> fst ` set g \<and> 1 \<le> card T \<and> card T < k \<longrightarrow> is_graph_connected g (Some T))"
    then have "\<not> length g - 1 \<le> card S"
      using one_left_connected[OF ne d, of S] by blast
    with a have k: "k < length g" by simp
    have bad: "list_ex (\<lambda>c. \<not> is_graph_connected g (Some (set c))) (combinations (map fst g) k)"
      using a disconnecting_combination_iff[OF d, of k] by blast
    have good: "\<forall>j. 1 \<le> j \<and> j < k \<longrightarrow>
        \<not> list_ex (\<lambda>c. \<not> is_graph_connected g (Some (set c))) (combinations (map fst g) j)"
    proof (intro allI impI notI)
      fix j
      assume j: "1 \<le> j \<and> j < k"
        and "list_ex (\<lambda>c. \<not> is_graph_connected g (Some (set c))) (combinations (map fst g) j)"
      then obtain T where "T \<subseteq> fst ` set g" "card T = j" "\<not> is_graph_connected g (Some T)"
        unfolding disconnecting_combination_iff[OF d] by blast
      with a j show False by simp
    qed
    from connectivity_loop_found[OF _ k bad good] a calc
    show "calculate_node_connectivity g = int k - 1" by simp
  }
  {
    assume a: "\<forall>T. T \<subseteq> fst ` set g \<and> 1 \<le> card T \<and> card T < length g - 1
               \<longrightarrow> is_graph_connected g (Some T)"
    have "\<forall>j. 1 \<le> j \<and> j < length g \<longrightarrow>
        \<not> list_ex (\<lambda>c. \<not> is_graph_connected g (Some (set c))) (combinations (map fst g) j)"
    proof (intro allI impI)
      fix j assume j: "1 \<le> j \<and> j < length g"
      have "is_graph_connected g (Some T)" if T: "T \<subseteq> fst ` set g" "card T = j" for T
      proof (cases "j < length g - 1")
        case True
        with a T j show ?thesis by simp
      next
        case False
        with j T have "length g - 1 \<le> card T" by simp
        from one_left_connected[OF ne d T(1) this] show ?thesis .
      qed
      then show "\<not> list_ex (\<lambda>c. \<not> is_graph_connected g (Some (set c))) (combinations (map fst g) j)"
        unfolding disconnecting_combination_iff[OF d] by blast
    qed
    from connectivity_loop_none[OF this] calc
    show "calculate_node_connectivity g = int (length g) - 1" by simp
  }
qed


theorem node_connectivity_algorithm_witness:
  "\<not> is_graph_connected (ring_graph 4) (Some {0, 2}) \<and>
   calculate_node_connectivity (ring_graph 4) = 1 \<and>
   calculate_node_connectivity (graph complete3) = 2"
proof -
  have keys: "fst ` set (ring_graph 4) = {0, 1, 2, 3}"
    by code_simp
  have d: "distinct (map fst (ring_graph 4))"
    by code_simp
  have n: "2 \<le> length (ring_graph 4)"
    by code_simp
  have cut: "\<not> is_graph_connected (ring_graph 4) (Some {0, 2})"
    by code_simp
  have single: "is_graph_connected (ring_graph 4) (Some {x})" if "x \<in> {0, 1, 2, 3}" for x
  proof -
    have "is_graph_connected (ring_graph 4) (Some {0})" by code_simp
    moreover have "is_graph_connected (ring_graph 4) (Some {1})" by code_simp
    moreover have "is_graph_connected (ring_graph 4) (Some {2})" by code_simp
    moreover have "is_graph_connected (ring_graph 4) (Some {3})" by code_simp
    ultimately show ?thesis using that by auto
  qed
  have smaller: "\<forall>T. T \<subseteq> fst ` set (ring_graph 4) \<and> 1 \<le> card T \<and> card T < 2
       \<longrightarrow> is_graph_connected (ring_graph 4) (Some T)"
  proof (intro allI impI)
    fix T :: "int set"
    assume T: "T \<subseteq> fst ` set (ring_graph 4) \<and> 1 \<le> card T \<and> card T < 2"
    then have "card T = 1" by simp
    then obtain x where "T = {x}" by (rule card_1_singletonE)
    with T keys single[of x] show "is_graph_connected (ring_graph 4) (Some T)" by simp
  qed
  have prem: "1 \<le> (2::nat) \<and> {0, 2} \<subseteq> fst ` set (ring_graph 4) \<and> card {0, 2::int} = 2 \<and>
      \<not> is_graph_connected (ring_graph 4) (Some {0, 2}) \<and>
      (\<forall>T. T \<subseteq> fst ` set (ring_graph 4) \<and> 1 \<le> card T \<and> card T < 2
         \<longrightarrow> is_graph_connected (ring_graph 4) (Some T))"
    using keys cut smaller by simp
  have ring: "calculate_node_connectivity (ring_graph 4) = 1"
    using node_connectivity_algorithm[OF d n, THEN conjunct1, rule_format, OF prem] by simp
  have keys3: "fst ` set (graph complete3) = {0, 1, 2}"
    by code_simp
  have d3: "distinct (map fst (graph complete3))"
    by code_simp
  have n3: "length (graph complete3) = 3"
    by code_simp
  have single3: "is_graph_connected (graph complete3) (Some {x})" if "x \<in> {0, 1, 2}" for x
  proof -
    have "is_graph_connected (graph complete3) (Some {0})" by code_simp
    moreover have "is_graph_connected (graph complete3) (Some {1})" by code_simp
    moreover have "is_graph_connected (graph complete3) (Some {2})" by code_simp
    ultimately show ?thesis using that by auto
  qed
  have none3: "\<forall>T. T \<subseteq> fst ` set (graph complete3) \<and> 1 \<le> card T
       \<and> card T < length (graph complete3) - 1 \<longrightarrow> is_graph_connected (graph complete3) (Some T)"
  proof (intro allI impI)
    fix T :: "int set"
    assume T: "T \<subseteq> fst ` set (graph complete3) \<and> 1 \<le> card T
       \<and> card T < length (graph complete3) - 1"
    then have "card T = 1" using n3 by simp
    then obtain x where "T = {x}" by (rule card_1_singletonE)
    with T keys3 single3[of x] show "is_graph_connected (graph complete3) (Some T)" by simp
  qed
  have n3': "2 \<le> length (graph complete3)"
    using n3 by simp
  have complete: "calculate_node_connectivity (graph complete3) = 2"
    using node_connectivity_algorithm[OF d3 n3', THEN conjunct2, THEN mp, OF none3] n3 by simp
  from cut ring complete show ?thesis by simp
qed


text \<open>
  C4 at graphs the code can be given.  For the ring on three nodes
  \<open>calculate_node_connectivity\<close> returns 2; for the rings on four and on five nodes
  it returns 1.
\<close>

theorem ring_connectivity_computed:
  "calculate_node_connectivity (ring_graph 3) = 2 \<and>
   calculate_node_connectivity (ring_graph 4) = 1 \<and>
   calculate_node_connectivity (ring_graph 5) = 1"
  by code_simp

subsection \<open>Signed messages\<close>

lemma relay_of_same [simp]:
  "relay_of (n\<lparr>signed_messages := ms\<rparr>) = relay_of n"
  by (rule ext) (simp add: relay_of_def receivers_def sign_message_def split: prod.splits)

lemma relayable_same [simp]:
  "relayable (n\<lparr>signed_messages := ms\<rparr>) = relayable n"
  by (rule ext) (simp add: relayable_def split: prod.splits)

lemma addressed_signed_sends:
  "addressed (signed_sends n round_num (sign_message n v signatures) signatures)
     = relay_of n (v, signatures)"
  by (simp add: addressed_def signed_sends_def relay_of_def comp_def)

lemma addressed_append [simp]: "addressed (xs @ ys) = addressed xs @ addressed ys"
  by (simp add: addressed_def)

lemma addressed_Nil [simp]: "addressed [] = []"
  by (simp add: addressed_def)

lemma process_message_effect:
  assumes "process_message py_int round_num n msg = (e, n', sent)"
  shows "\<exists>new. n' = n\<lparr>signed_messages := signed_messages n @ new\<rparr> \<and>
           (distinct (map (\<lambda>(v, s). set s) (signed_messages n))
              \<longrightarrow> distinct (map (\<lambda>(v, s). set s) (signed_messages n @ new))) \<and>
           addressed sent = concat (map (relay_of n) (filter (relayable n) new))"
proof -
  have keep: "\<exists>new. n = n\<lparr>signed_messages := signed_messages n @ new\<rparr> \<and>
           (distinct (map (\<lambda>(v, s). set s) (signed_messages n))
              \<longrightarrow> distinct (map (\<lambda>(v, s). set s) (signed_messages n @ new))) \<and>
           addressed [] = concat (map (relay_of n) (filter (relayable n) new))"
    by (rule exI[of _ "[]"]) simp
  show ?thesis
  proof (cases "nm_signature msg")
    case None
    with assms keep show ?thesis by (simp add: process_message_def)
  next
    case (Some sig)
    show ?thesis
    proof (cases "sig = []")
      case True
      with Some assms keep show ?thesis by (simp add: process_message_def)
    next
      case False
      show ?thesis
      proof (cases "verify_signature py_int sig")
        case (Inl err)
        with Some False assms keep show ?thesis by (simp add: process_message_def)
      next
        case (Inr p)
        obtain v signatures where p: "p = (v, signatures)" by (cases p)
        show ?thesis
        proof (cases "list_ex (\<lambda>(stored_val, stored_sigs). set signatures = set stored_sigs)
                        (signed_messages n)")
          case True
          with Some False Inr p assms keep show ?thesis by (simp add: process_message_def)
        next
          case fresh: False
          then have new_set: "set signatures \<notin> (\<lambda>(v, s). set s) ` set (signed_messages n)"
            by (auto simp: list_ex_iff)
          have n': "n' = n\<lparr>signed_messages := signed_messages n @ [(v, signatures)]\<rparr>"
            using Some False Inr p fresh assms
            by (auto simp: process_message_def Let_def split: if_splits)
          have sent: "addressed sent
              = concat (map (relay_of n) (filter (relayable n) [(v, signatures)]))"
            using Some False Inr p fresh assms
            by (auto simp: process_message_def Let_def relayable_def addressed_signed_sends
                  split: if_splits)
          have "distinct (map (\<lambda>(v, s). set s) (signed_messages n))
              \<longrightarrow> distinct (map (\<lambda>(v, s). set s) (signed_messages n @ [(v, signatures)]))"
            using new_set by auto
          with n' sent show ?thesis by blast
        qed
      qed
    qed
  qed
qed

lemma effect_compose:
  assumes first: "n' = n\<lparr>signed_messages := signed_messages n @ new\<rparr>"
      "distinct (map (\<lambda>(v, s). set s) (signed_messages n))
              \<longrightarrow> distinct (map (\<lambda>(v, s). set s) (signed_messages n @ new))"
      "addressed sent = concat (map (relay_of n) (filter (relayable n) new))"
    and second: "n'' = n'\<lparr>signed_messages := signed_messages n' @ new'\<rparr>"
      "distinct (map (\<lambda>(v, s). set s) (signed_messages n'))
              \<longrightarrow> distinct (map (\<lambda>(v, s). set s) (signed_messages n' @ new'))"
      "addressed sent' = concat (map (relay_of n') (filter (relayable n') new'))"
  shows "\<exists>new''. n'' = n\<lparr>signed_messages := signed_messages n @ new''\<rparr> \<and>
           (distinct (map (\<lambda>(v, s). set s) (signed_messages n))
              \<longrightarrow> distinct (map (\<lambda>(v, s). set s) (signed_messages n @ new''))) \<and>
           addressed (sent @ sent') = concat (map (relay_of n) (filter (relayable n) new''))"
proof (intro exI[of _ "new @ new'"] conjI)
  show "n'' = n\<lparr>signed_messages := signed_messages n @ new @ new'\<rparr>"
    using first(1) second(1) by simp
  show "distinct (map (\<lambda>(v, s). set s) (signed_messages n))
      \<longrightarrow> distinct (map (\<lambda>(v, s). set s) (signed_messages n @ new @ new'))"
    using first(1,2) second(2) by simp
  show "addressed (sent @ sent') = concat (map (relay_of n) (filter (relayable n) (new @ new')))"
    using first(1,3) second(3) by simp
qed

lemma process_messages_effect:
  assumes "process_messages py_int round_num n msgs = (e, n', sent)"
  shows "\<exists>new. n' = n\<lparr>signed_messages := signed_messages n @ new\<rparr> \<and>
           (distinct (map (\<lambda>(v, s). set s) (signed_messages n))
              \<longrightarrow> distinct (map (\<lambda>(v, s). set s) (signed_messages n @ new))) \<and>
           addressed sent = concat (map (relay_of n) (filter (relayable n) new))"
  using assms
proof (induction msgs arbitrary: n e n' sent)
  case Nil
  then have "n' = n" "sent = []" by simp_all
  then show ?case by (intro exI[of _ "[]"]) simp
next
  case (Cons msg msgs)
  obtain e1 n1 sent1 where one: "process_message py_int round_num n msg = (e1, n1, sent1)"
    by (cases "process_message py_int round_num n msg")
  from process_message_effect[OF one] obtain new1 where
    first: "n1 = n\<lparr>signed_messages := signed_messages n @ new1\<rparr>"
      "distinct (map (\<lambda>(v, s). set s) (signed_messages n))
              \<longrightarrow> distinct (map (\<lambda>(v, s). set s) (signed_messages n @ new1))"
      "addressed sent1 = concat (map (relay_of n) (filter (relayable n) new1))"
    by blast
  show ?case
  proof (cases e1)
    case (Some err)
    with Cons.prems one have "n' = n1" "sent = sent1" by simp_all
    with first show ?thesis by blast
  next
    case None
    obtain e2 n2 sent2 where rest: "process_messages py_int round_num n1 msgs = (e2, n2, sent2)"
      by (cases "process_messages py_int round_num n1 msgs")
    from Cons.IH[OF rest] obtain new2 where
      second: "n2 = n1\<lparr>signed_messages := signed_messages n1 @ new2\<rparr>"
        "distinct (map (\<lambda>(v, s). set s) (signed_messages n1))
              \<longrightarrow> distinct (map (\<lambda>(v, s). set s) (signed_messages n1 @ new2))"
        "addressed sent2 = concat (map (relay_of n1) (filter (relayable n1) new2))"
      by blast
    from None Cons.prems one rest have "n' = n2" "sent = sent1 @ sent2" by simp_all
    with effect_compose[OF first second] show ?thesis by simp
  qed
qed

lemma later_rounds_effect:
  assumes "1 \<le> round_num" and "node_rounds py_int round_num n deliveries = (e, n', sent)"
  shows "\<exists>new. n' = n\<lparr>signed_messages := signed_messages n @ new\<rparr> \<and>
           (distinct (map (\<lambda>(v, s). set s) (signed_messages n))
              \<longrightarrow> distinct (map (\<lambda>(v, s). set s) (signed_messages n @ new))) \<and>
           addressed sent = concat (map (relay_of n) (filter (relayable n) new))"
  using assms
proof (induction deliveries arbitrary: round_num n e n' sent)
  case Nil
  then have "n' = n" "sent = []" by simp_all
  then show ?case by (intro exI[of _ "[]"]) simp
next
  case (Cons delivered later)
  from Cons.prems(1) have round:
    "process_round py_int round_num n delivered = process_messages py_int round_num n delivered"
    by (simp add: process_round_def)
  obtain e1 n1 sent1 where one: "process_messages py_int round_num n delivered = (e1, n1, sent1)"
    by (cases "process_messages py_int round_num n delivered")
  from process_messages_effect[OF one] obtain new1 where
    first: "n1 = n\<lparr>signed_messages := signed_messages n @ new1\<rparr>"
      "distinct (map (\<lambda>(v, s). set s) (signed_messages n))
              \<longrightarrow> distinct (map (\<lambda>(v, s). set s) (signed_messages n @ new1))"
      "addressed sent1 = concat (map (relay_of n) (filter (relayable n) new1))"
    by blast
  show ?case
  proof (cases e1)
    case (Some err)
    with Cons.prems(2) round one have "n' = n1" "sent = sent1" by simp_all
    with first show ?thesis by blast
  next
    case None
    obtain e2 n2 sent2 where rest: "node_rounds py_int (round_num + 1) n1 later = (e2, n2, sent2)"
      by (cases "node_rounds py_int (round_num + 1) n1 later")
    from Cons.prems(1) have "1 \<le> round_num + 1" by simp
    from Cons.IH[OF this rest] obtain new2 where
      second: "n2 = n1\<lparr>signed_messages := signed_messages n1 @ new2\<rparr>"
        "distinct (map (\<lambda>(v, s). set s) (signed_messages n1))
              \<longrightarrow> distinct (map (\<lambda>(v, s). set s) (signed_messages n1 @ new2))"
        "addressed sent2 = concat (map (relay_of n1) (filter (relayable n1) new2))"
      by blast
    from None Cons.prems(2) round one rest have "n' = n2" "sent = sent1 @ sent2" by simp_all
    with effect_compose[OF first second] show ?thesis by simp
  qed
qed

lemma node_run_effect:
  assumes "node_run py_int n deliveries = (e, n', sent)"
  shows "\<exists>new first. n' = n\<lparr>signed_messages := signed_messages n @ new\<rparr> \<and>
           (distinct (map (\<lambda>(v, s). set s) (signed_messages n))
              \<longrightarrow> distinct (map (\<lambda>(v, s). set s) (signed_messages n @ new))) \<and>
           addressed sent = first @ concat (map (relay_of n) (filter (relayable n) new)) \<and>
           (first = [] \<or> (\<exists>v. sm_is_commander n \<and> commander_value n = Some v \<and>
                              first = relay_of n (v, [])))"
proof (cases deliveries)
  case Nil
  with assms have "n' = n" "sent = []" by (simp_all add: node_run_def)
  then show ?thesis by (intro exI[of _ "[]"]) simp
next
  case (Cons delivered later)
  show ?thesis
  proof (cases "sm_is_commander n")
    case False
    obtain e1 n1 sent1 where one: "process_messages py_int 0 n delivered = (e1, n1, sent1)"
      by (cases "process_messages py_int 0 n delivered")
    from process_messages_effect[OF one] obtain new1 where
      first: "n1 = n\<lparr>signed_messages := signed_messages n @ new1\<rparr>"
        "distinct (map (\<lambda>(v, s). set s) (signed_messages n))
                \<longrightarrow> distinct (map (\<lambda>(v, s). set s) (signed_messages n @ new1))"
        "addressed sent1 = concat (map (relay_of n) (filter (relayable n) new1))"
      by blast
    show ?thesis
    proof (cases e1)
      case (Some err)
      with assms Cons False one have "n' = n1" "sent = sent1"
        by (simp_all add: node_run_def process_round_def)
      with first show ?thesis by (intro exI[of _ new1] exI[of _ "[]"]) simp
    next
      case None
      obtain e2 n2 sent2 where rest: "node_rounds py_int 1 n1 later = (e2, n2, sent2)"
        by (cases "node_rounds py_int 1 n1 later")
      have "1 \<le> (1::int)" by simp
      from later_rounds_effect[OF this rest] obtain new2 where
        second: "n2 = n1\<lparr>signed_messages := signed_messages n1 @ new2\<rparr>"
          "distinct (map (\<lambda>(v, s). set s) (signed_messages n1))
                \<longrightarrow> distinct (map (\<lambda>(v, s). set s) (signed_messages n1 @ new2))"
          "addressed sent2 = concat (map (relay_of n1) (filter (relayable n1) new2))"
        by blast
      from None assms Cons False one rest have res: "n' = n2" "sent = sent1 @ sent2"
        by (simp_all add: node_run_def process_round_def)
      from effect_compose[OF first second] obtain new where
        "n2 = n\<lparr>signed_messages := signed_messages n @ new\<rparr>"
        "distinct (map (\<lambda>(v, s). set s) (signed_messages n))
                \<longrightarrow> distinct (map (\<lambda>(v, s). set s) (signed_messages n @ new))"
        "addressed (sent1 @ sent2) = concat (map (relay_of n) (filter (relayable n) new))"
        by blast
      with res show ?thesis by (intro exI[of _ new] exI[of _ "[]"]) simp
    qed
  next
    case True
    show ?thesis
    proof (cases "commander_value n")
      case None
      with assms Cons True have "n' = n" "sent = []"
        by (simp_all add: node_run_def process_round_def)
      then show ?thesis by (intro exI[of _ "[]"]) simp
    next
      case (Some v)
      obtain e2 n2 sent2 where rest: "node_rounds py_int 1 n later = (e2, n2, sent2)"
        by (cases "node_rounds py_int 1 n later")
      have "1 \<le> (1::int)" by simp
      from later_rounds_effect[OF this rest] obtain new2 where
        second: "n2 = n\<lparr>signed_messages := signed_messages n @ new2\<rparr>"
          "distinct (map (\<lambda>(v, s). set s) (signed_messages n))
                \<longrightarrow> distinct (map (\<lambda>(v, s). set s) (signed_messages n @ new2))"
          "addressed sent2 = concat (map (relay_of n) (filter (relayable n) new2))"
        by blast
      from Some assms Cons True rest have "n' = n2"
          "sent = signed_sends n 0 (sign_message n v []) [] @ sent2"
        by (simp_all add: node_run_def process_round_def)
      with second True Some show ?thesis
        by (intro exI[of _ new2] exI[of _ "relay_of n (v, [])"])
           (simp add: addressed_signed_sends)
    qed
  qed
qed

lemma distinct_map_coarser:
  assumes "distinct (map f xs)" and coarser: "\<And>x y. g x = g y \<Longrightarrow> f x = f y"
  shows "distinct (map g (filter P xs))"
  using assms(1)
proof (induction xs)
  case Nil
  show ?case by simp
next
  case (Cons x xs)
  from Cons.prems have tail: "distinct (map f xs)" and head: "f x \<notin> f ` set xs"
    by simp_all
  from Cons.IH[OF tail] have IH: "distinct (map g (filter P xs))" .
  have "g x \<notin> g ` set (filter P xs)"
  proof
    assume "g x \<in> g ` set (filter P xs)"
    then obtain y where y: "y \<in> set xs" "g x = g y" by auto
    from coarser[OF y(2)] y(1) have "f x \<in> f ` set xs" by (metis imageI)
    with head show False by contradiction
  qed
  with IH show ?case by simp
qed

text \<open>
  C8, as the code has it.  The signer chain and the relay-once rule are those of
  \<open>SignedMessagesNode\<close>.  Over a whole run of a node that starts with nothing stored,
  whatever the network delivers and whether or not an exception ends the run: the signed
  values the node relayed have pairwise different (value, signer set) combinations; what
  it sent is, in order, the commander's own signed value to every other node (for the
  commander, in round 0) and then exactly one relay per relayed value, to every node
  that is neither the node itself nor in that value's chain, carrying the chain extended
  by the node's own id; and every message it sent carries a signature.
\<close>

theorem signed_node_relays_once:
  assumes "signed_messages n = []" and "node_run py_int n deliveries = (e, n', sent)"
  shows "distinct (map (\<lambda>(v, signatures). (v, set signatures)) (relayed_entries n')) \<and>
         (\<exists>first. addressed sent = first @ concat (map (relay_of n) (relayed_entries n')) \<and>
            (first = [] \<or> (\<exists>v. sm_is_commander n \<and> commander_value n = Some v \<and>
                               first = relay_of n (v, [])))) \<and>
         (\<forall>m \<in> set sent. nm_signature m \<noteq> None)"
proof -
  from node_run_effect[OF assms(2)] obtain new first where
    eff: "n' = n\<lparr>signed_messages := signed_messages n @ new\<rparr>"
      "distinct (map (\<lambda>(v, s). set s) (signed_messages n))
         \<longrightarrow> distinct (map (\<lambda>(v, s). set s) (signed_messages n @ new))"
      "addressed sent = first @ concat (map (relay_of n) (filter (relayable n) new))"
      "first = [] \<or> (\<exists>v. sm_is_commander n \<and> commander_value n = Some v \<and>
                              first = relay_of n (v, []))"
    by blast
  from eff(1) assms(1) have entries: "relayed_entries n' = filter (relayable n) new"
    by (simp add: relayed_entries_def)
  from eff(2) assms(1) have "distinct (map (\<lambda>(v, s). set s) new)" by simp
  then have "distinct (map (\<lambda>(v, signatures). (v, set signatures)) (filter (relayable n) new))"
    by (rule distinct_map_coarser) auto
  with entries have once:
    "distinct (map (\<lambda>(v, signatures). (v, set signatures)) (relayed_entries n'))"
    by simp
  have chain: "\<exists>first. addressed sent = first @ concat (map (relay_of n) (relayed_entries n')) \<and>
            (first = [] \<or> (\<exists>v. sm_is_commander n \<and> commander_value n = Some v \<and>
                               first = relay_of n (v, [])))"
    unfolding entries using eff(3,4) by blast
  have signed: "snd p \<noteq> None" if "p \<in> set (relay_of n e)" for p e
    using that by (auto simp: relay_of_def split: prod.splits)
  from chain obtain first where
    sent: "addressed sent = first @ concat (map (relay_of n) (relayed_entries n'))"
    and first: "first = [] \<or> (\<exists>v. first = relay_of n (v, []))"
    by blast
  have carried: "\<forall>m \<in> set sent. nm_signature m \<noteq> None"
  proof
    fix m assume "m \<in> set sent"
    then have "(nm_receiver_id m, nm_signature m) \<in> set (addressed sent)"
      by (auto simp: addressed_def)
    then have "(nm_receiver_id m, nm_signature m) \<in> set first \<or>
        (\<exists>e. (nm_receiver_id m, nm_signature m) \<in> set (relay_of n e))"
      unfolding sent by auto
    with first signed show "nm_signature m \<noteq> None" by fastforce
  qed
  from once chain carried show ?thesis by blast
qed

theorem signed_node_relays_once_witness:
  "signed_messages lieutenant_one = [] \<and>
   distinct (map (\<lambda>(v, signatures). (v, set signatures))
     (relayed_entries (fst (snd (node_run read_decimal lieutenant_one delivered_example))))) \<and>
   relayed_entries (fst (snd (node_run read_decimal lieutenant_one delivered_example)))
     = [(Action_ATTACK, [0]), (Action_ATTACK, [0, 2])] \<and>
   addressed (snd (snd (node_run read_decimal lieutenant_one delivered_example)))
     = [(2, Some ''ATTACK:0:1'')]"
proof -
  have fresh: "signed_messages lieutenant_one = []"
    by (simp add: lieutenant_one_def SignedMessagesNode_def)
  obtain e n' sent where run: "node_run read_decimal lieutenant_one delivered_example = (e, n', sent)"
    by (cases "node_run read_decimal lieutenant_one delivered_example")
  from signed_node_relays_once[OF fresh run]
  have once: "distinct (map (\<lambda>(v, signatures). (v, set signatures)) (relayed_entries n'))"
    by blast
  have entries: "relayed_entries (fst (snd (node_run read_decimal lieutenant_one delivered_example)))
     = [(Action_ATTACK, [0]), (Action_ATTACK, [0, 2])]"
    by code_simp
  have sent: "addressed (snd (snd (node_run read_decimal lieutenant_one delivered_example)))
     = [(2, Some ''ATTACK:0:1'')]"
    by code_simp
  from fresh once entries sent show ?thesis
    unfolding run by simp
qed

text \<open>
  The claim as stated fails for \<open>PartialTopologyBFT.run_signed_consensus\<close>, whose
  messages carry the travelled path and no signer chain: in the signed run on the complete
  graph of three nodes with fault bound 1, node 2 logs the value \<open>ATTACK\<close> with the
  path \<open>[1, 1]\<close> twice in round 1, so node 1 sent it the same value with the same
  path twice.
\<close>

theorem signed_consensus_counterexample:
  "round_log (snd (run_signed_consensus complete3 1 ATTACK)) 2 1
     = [(ATTACK, [1, 1]), (ATTACK, [1, 1]), (ATTACK, [1, 0, 0])] \<and>
   \<not> distinct (round_log (snd (run_signed_consensus complete3 1 ATTACK)) 2 1)"
  by code_simp

end
